theory Spec2Isabelle
  imports Main "HOL-Library.Word" "HOL-Library.Signed_Division"
begin

section \<open>Bytes, panics and the two random sources\<close>

text \<open>
  The generator package works on Go byte slices. A slice is modelled by the list of its
  elements; a Go \<^verbatim>\<open>int64\<close> or \<^verbatim>\<open>int\<close> is modelled by an integer. No
  arithmetic of the embedded functions can leave the 64-bit range on inputs taken from it:
  the only product, \<^verbatim>\<open>uniqueStrLen * int64(compRatio)\<close>, multiplies a truncated quotient
  by its divisor and so is bounded in magnitude by the dividend. Go's \<^verbatim>\<open>/\<close> and
  \<^verbatim>\<open>%\<close> truncate towards zero; they are \<open>sdiv\<close> and \<open>smod\<close>.
\<close>

type_synonym byte = "8 word"

text \<open>The run-time panics that the embedded code can raise.\<close>

datatype panic =
    MakesliceLenOutOfRange
  | IndexOutOfRange
  | IntegerDivideByZero
  | NegativeLength

text \<open>
  \<^verbatim>\<open>crypto/rand\<close>: the secure source is a stream of bytes together with a schedule that
  says which calls of the underlying reader fail. \<^verbatim>\<open>cRand.Read(b)\<close> is
  \<^verbatim>\<open>io.ReadFull(Reader, b)\<close>: for an empty \<^verbatim>\<open>b\<close> the reader is not called at all and
  the result is \<^verbatim>\<open>(0, nil)\<close>; otherwise the call either fills \<^verbatim>\<open>b\<close> with the next
  bytes of the stream or reports an error. A failing call is taken to leave the buffer as
  \<^verbatim>\<open>make\<close> created it (all zero).
\<close>

record crand =
  cr_bytes :: "nat \<Rightarrow> byte"
  cr_pos :: nat
  cr_fails :: "nat \<Rightarrow> bool"
  cr_calls :: nat

definition fresh :: "crand \<Rightarrow> nat \<Rightarrow> byte list" where
  "fresh cr n = map (cr_bytes cr) [cr_pos cr ..< cr_pos cr + n]"

definition cRead :: "crand \<Rightarrow> nat \<Rightarrow> byte list \<times> bool \<times> crand" where
  "cRead cr n =
     (if n = 0 then ([], False, cr)
      else if cr_fails cr (cr_calls cr)
      then (replicate n 0, True, cr\<lparr>cr_calls := Suc (cr_calls cr)\<rparr>)
      else (fresh cr n, False,
            cr\<lparr>cr_pos := cr_pos cr + n, cr_calls := Suc (cr_calls cr)\<rparr>))"

section \<open>The compressible data synthesizer: \<^verbatim>\<open>genData\<close> (text.go)\<close>

text \<open>
  \<^verbatim>\<open>for int64(len(builder)) != repeatUniqueStrLen { builder = append(builder, uniqueStr...) }\<close>

  The loop has no bound of its own: it stops only when the length hits the target exactly.
  Not returning is the value \<open>None\<close>.
\<close>

partial_function (option) repeat_loop :: "byte list \<Rightarrow> byte list \<Rightarrow> int \<Rightarrow> byte list option" where
  "repeat_loop builder uniqueStr repeatUniqueStrLen =
     (if int (length builder) \<noteq> repeatUniqueStrLen
      then repeat_loop (builder @ uniqueStr) uniqueStr repeatUniqueStrLen
      else Some builder)"

text \<open>
  \<^verbatim>\<open>for i := 0; i < remStrLen; i++ { builder = append(builder, builder[i]) }\<close>

  The read \<^verbatim>\<open>builder[i]\<close> panics when \<^verbatim>\<open>i\<close> is not below the current length.
\<close>

function rem_loop :: "nat \<Rightarrow> int \<Rightarrow> byte list \<Rightarrow> panic + byte list" where
  "rem_loop i remStrLen builder =
     (if int i < remStrLen
      then (if i < length builder
            then rem_loop (Suc i) remStrLen (builder @ [builder ! i])
            else Inl IndexOutOfRange)
      else Inr builder)"
  by pat_completeness auto
termination
  by (relation "measure (\<lambda>(i, r, b). nat (r - int i))") auto

declare rem_loop.simps [simp del]

text \<open>
  The three-way choice of \<^verbatim>\<open>uniqueStrLen\<close>, \<^verbatim>\<open>remStrLen\<close> and
  \<^verbatim>\<open>repeatUniqueStrLen\<close> at the head of \<^verbatim>\<open>genData\<close>.
\<close>

definition genPlan :: "int \<Rightarrow> int \<Rightarrow> int \<Rightarrow> int \<times> int \<times> int" where
  "genPlan reqSize compRatio compWindow =
     (if compRatio > 0 \<and> reqSize \<le> compWindow then
        (if reqSize sdiv compRatio = 0
         then (1, 0, reqSize)
         else (reqSize sdiv compRatio, reqSize smod compRatio,
               (reqSize sdiv compRatio) * compRatio))
      else if compRatio > 0 then
        (compWindow sdiv compRatio, compWindow smod compRatio,
         (compWindow sdiv compRatio) * compRatio)
      else (reqSize, 0, reqSize))"

text \<open>
  \<^verbatim>\<open>genData(reqSize, compRatio, compWindow)\<close>. The result is \<open>None\<close> when the call does
  not return, \<open>Some (Inl p)\<close> when it panics, and \<open>Some (Inr (bs, cr'))\<close> when it returns
  the slice \<open>bs\<close> and leaves the secure source in state \<open>cr'\<close>. \<^verbatim>\<open>make\<close> panics on a
  negative length; a failed secure read returns \<^verbatim>\<open>nil\<close>, the empty slice.
\<close>

definition genData ::
  "int \<Rightarrow> int \<Rightarrow> int \<Rightarrow> crand \<Rightarrow> (panic + byte list \<times> crand) option" where
  "genData reqSize compRatio compWindow cr =
     (case genPlan reqSize compRatio compWindow of
        (uniqueStrLen, remStrLen, repeatUniqueStrLen) \<Rightarrow>
          if uniqueStrLen < 0 then Some (Inl MakesliceLenOutOfRange)
          else (case cRead cr (nat uniqueStrLen) of
                  (uniqueStr, err, cr') \<Rightarrow>
                    if err then Some (Inr ([], cr'))
                    else (case repeat_loop [] uniqueStr repeatUniqueStrLen of
                            None \<Rightarrow> None
                          | Some builder \<Rightarrow>
                              (case rem_loop 0 remStrLen builder of
                                 Inl p \<Rightarrow> Some (Inl p)
                               | Inr out \<Rightarrow> Some (Inr (out, cr'))))))"

text \<open>
  The accumulation loop of \<^verbatim>\<open>textSrc.Object\<close>:

  \<^verbatim>\<open>for int64(len(builder)) < t.obj.Size {
       reqSize := t.obj.Size - int64(len(builder))
       builder = append(builder, genData(reqSize, t.o.compRatio, t.o.compWindow)...) }\<close>
\<close>

partial_function (option) build_loop ::
  "int \<Rightarrow> int \<Rightarrow> int \<Rightarrow> byte list \<Rightarrow> crand \<Rightarrow> (panic + byte list \<times> crand) option" where
  "build_loop objSize compRatio compWindow builder cr =
     (if int (length builder) < objSize
      then (case genData (objSize - int (length builder)) compRatio compWindow cr of
              None \<Rightarrow> None
            | Some (Inl p) \<Rightarrow> Some (Inl p)
            | Some (Inr (bs, cr')) \<Rightarrow> build_loop objSize compRatio compWindow (builder @ bs) cr')
      else Some (Inr (builder, cr)))"

section \<open>Configuration, circular buffer and object\<close>

text \<open>
  The fields of \<^verbatim>\<open>Options\<close> that the two sources read: \<^verbatim>\<open>o.totalSize\<close>,
  \<^verbatim>\<open>o.random.size\<close>, \<^verbatim>\<open>o.text.size\<close>, \<^verbatim>\<open>o.compRatio\<close>, \<^verbatim>\<open>o.compWindow\<close>, and the
  prefix that \<^verbatim>\<open>setPrefix\<close> derives from the options.
\<close>

record Options =
  opt_totalSize :: int
  opt_randomSize :: int
  opt_textSize :: int
  opt_compRatio :: int
  opt_compWindow :: int
  opt_prefix :: string

text \<open>
  \<^verbatim>\<open>math/rand\<close>: the seeded generator \<^verbatim>\<open>rng\<close> is a stream of bytes and a position.
  \<^verbatim>\<open>(*rand.Rand).Read\<close> always fills its buffer and returns a \<^verbatim>\<open>nil\<close> error, so
  \<^verbatim>\<open>io.ReadFull(rng, data)\<close> does too; the error flag is kept because the constructors
  test it.
\<close>

record mrand =
  mr_bytes :: "nat \<Rightarrow> byte"
  mr_pos :: nat

definition readFull :: "mrand \<Rightarrow> nat \<Rightarrow> byte list \<times> bool \<times> mrand" where
  "readFull rng n =
     (map (mr_bytes rng) [mr_pos rng ..< mr_pos rng + n], False, rng\<lparr>mr_pos := mr_pos rng + n\<rparr>)"

text \<open>
  \<^verbatim>\<open>o.getSize(rng)\<close> and \<^verbatim>\<open>randASCIIBytes(nBuf[:], rng)\<close> are defined outside the two
  files at hand. Both are parameters of the model: the first maps the options and the
  generator to the drawn size and the advanced generator, the second maps the generator to
  the characters left in \<^verbatim>\<open>nBuf\<close> and the advanced generator.
\<close>

type_synonym getSize_fn = "Options \<Rightarrow> mrand \<Rightarrow> int \<times> mrand"
type_synonym randASCIIBytes_fn = "mrand \<Rightarrow> string \<times> mrand"

record circularBuffer =
  cb_data :: "byte list"
  cb_want :: int

text \<open>
  Modelled from the spec: \<^verbatim>\<open>newCircularBuffer\<close>, \<^verbatim>\<open>(*circularBuffer).Reset\<close> and the
  reader behind it are not in the two files. Section 4.1: \<^emph>\<open>reset(requestedLength) returns
  a stream cursor over the seed buffer such that reading it end-to-end yields exactly
  requestedLength bytes, with content equal to the seed buffer repeated (and truncated at
  the final repetition) until the length is reached\<close>; \<^emph>\<open>requestedLength must be \<ge> 0; a
  negative value is a programming-contract violation (fatal)\<close>. The spec defines no cycling
  over an empty buffer; nothing is read from one.
\<close>

definition newCircularBuffer :: "byte list \<Rightarrow> int \<Rightarrow> circularBuffer" where
  "newCircularBuffer d want = \<lparr>cb_data = d, cb_want = want\<rparr>"

definition Reset :: "circularBuffer \<Rightarrow> int \<Rightarrow> panic + circularBuffer" where
  "Reset c want = (if want < 0 then Inl NegativeLength else Inr (c\<lparr>cb_want := want\<rparr>))"

definition drain :: "circularBuffer \<Rightarrow> byte list" where
  "drain c =
     (if cb_data c = [] then []
      else map (\<lambda>i. cb_data c ! (i mod length (cb_data c))) [0 ..< nat (cb_want c)])"

text \<open>
  \<^verbatim>\<open>Object\<close>. The \<^verbatim>\<open>Reader\<close> field holds the pointer that \<^verbatim>\<open>Reset\<close> returns, which is
  the source's own buffer; the model stores the buffer as it stands when \<^verbatim>\<open>Object()\<close>
  returns (\<open>None\<close> is \<^verbatim>\<open>nil\<close>).
\<close>

record Object =
  ob_Reader :: "circularBuffer option"
  ob_Name :: string
  ob_ContentType :: string
  ob_Size :: int
  ob_Prefix :: string

text \<open>
  Modelled from the spec: \<^verbatim>\<open>(*Object).setName\<close> and \<^verbatim>\<open>(*Object).setPrefix\<close> are not in
  the two files. Sections 4.3 and 4.4 have the source \<^emph>\<open>assign a name\<close>, and section 6 has
  the prefix \<^emph>\<open>stable per instance\<close>, fixed by the configuration.
\<close>

definition setName :: "Object \<Rightarrow> string \<Rightarrow> Object" where
  "setName obj s = obj\<lparr>ob_Name := s\<rparr>"

definition setPrefix :: "Object \<Rightarrow> Options \<Rightarrow> Object" where
  "setPrefix obj opts = obj\<lparr>ob_Prefix := opt_prefix opts\<rparr>"

text \<open>
  The number of bytes that a caller can read from an object's stream, and the pair of the
  \<^verbatim>\<open>Size\<close> field and that number.
\<close>

definition streamLength :: "Object \<Rightarrow> nat" where
  "streamLength obj = (case ob_Reader obj of None \<Rightarrow> 0 | Some b \<Rightarrow> length (drain b))"

definition sizeAndStream :: "Object \<Rightarrow> int \<times> nat" where
  "sizeAndStream obj = (ob_Size obj, streamLength obj)"

text \<open>The error values that the constructors return.\<close>

datatype error =
    SizeError int
  | ReadError

section \<open>The Random Source: \<^verbatim>\<open>plainSrc\<close> (random.go)\<close>

record plainSrc =
  ps_o :: Options
  ps_rng :: mrand
  ps_obj :: Object
  ps_buf :: circularBuffer
  ps_builder :: "byte list"

text \<open>
  \<^verbatim>\<open>newRandom(o)\<close>. The argument \<open>rng\<close> is \<^verbatim>\<open>rand.New(rndSrc)\<close>, seeded from
  \<^verbatim>\<open>o.random.seed\<close> when that is set and from the global generator otherwise. The
  conversions between \<^verbatim>\<open>int\<close> and \<^verbatim>\<open>int64\<close> are the identity (64-bit \<^verbatim>\<open>int\<close>).
\<close>

definition newRandom :: "Options \<Rightarrow> mrand \<Rightarrow> error + plainSrc" where
  "newRandom opts rng =
     (let size = opt_randomSize opts;
          size = (if size > opt_totalSize opts then opt_totalSize opts else size)
      in if size \<le> 0 then Inl (SizeError size)
         else (case readFull rng (nat size) of
                 (seed, err, rng') \<Rightarrow>
                   if err then Inl ReadError
                   else Inr \<lparr>ps_o = opts,
                             ps_rng = rng',
                             ps_obj = setPrefix \<lparr>ob_Reader = None, ob_Name = [],
                                                 ob_ContentType = ''text/plain'', ob_Size = 0,
                                                 ob_Prefix = []\<rparr> opts,
                             ps_buf = newCircularBuffer seed (opt_totalSize opts),
                             ps_builder = []\<rparr>))"

text \<open>
  \<^verbatim>\<open>for i := splitLength; i < len(dst); i++ { dst[i] = dst[i%splitLength] }\<close>

  The remainder panics when \<^verbatim>\<open>splitLength\<close> is zero, the read when its index is not below
  the length.
\<close>

function split_loop :: "nat \<Rightarrow> nat \<Rightarrow> byte list \<Rightarrow> panic + byte list" where
  "split_loop splitLength i dst =
     (if i < length dst
      then (if splitLength = 0 then Inl IntegerDivideByZero
            else if i mod splitLength < length dst
            then split_loop splitLength (Suc i) (dst[i := dst ! (i mod splitLength)])
            else Inl IndexOutOfRange)
      else Inr dst)"
  by pat_completeness auto
termination
  by (relation "measure (\<lambda>(s, i, d). length d - i)") auto

declare split_loop.simps [simp del]

text \<open>
  \<^verbatim>\<open>(*plainSrc).Object()\<close>. \<^verbatim>\<open>dst\<close> starts as the empty prefix of the buffer's data, so
  after the \<^verbatim>\<open>append\<close> its contents are those of \<^verbatim>\<open>build\<close>, whether the bytes went into
  the old backing array or into a new one. A failed secure read is printed and otherwise
  ignored. The result is the panic, or the updated source and secure source.
\<close>

definition plainObject ::
  "getSize_fn \<Rightarrow> randASCIIBytes_fn \<Rightarrow> plainSrc \<Rightarrow> crand \<Rightarrow> panic + plainSrc \<times> crand" where
  "plainObject getSize randASCIIBytes c cr =
     (case getSize (ps_o c) (ps_rng c) of
        (sz, rng1) \<Rightarrow>
          if sz < 0 then Inl MakesliceLenOutOfRange
          else (case cRead cr (nat sz) of
                  (build, err, cr') \<Rightarrow>
                    (let dst = [] @ build;
                         splitLength = length dst div 4
                     in case split_loop splitLength splitLength dst of
                          Inl p \<Rightarrow> Inl p
                        | Inr dst' \<Rightarrow>
                            (case Reset ((ps_buf c)\<lparr>cb_data := dst'\<rparr>) 0 of
                               Inl p \<Rightarrow> Inl p
                             | Inr buf' \<Rightarrow>
                                 (case randASCIIBytes rng1 of
                                    (nBuf, rng2) \<Rightarrow>
                                      Inr (c\<lparr>ps_rng := rng2,
                                             ps_obj := setName ((ps_obj c)\<lparr>ob_Size := sz,
                                                                        ob_Reader := Some buf'\<rparr>)
                                                               (nBuf @ ''.txt''),
                                             ps_buf := buf'\<rparr>, cr'))))))"

text \<open>Two calls of \<^verbatim>\<open>Object()\<close> in a row on one instance, and the two names assigned.\<close>

definition plainObject_twice ::
  "getSize_fn \<Rightarrow> randASCIIBytes_fn \<Rightarrow> plainSrc \<Rightarrow> crand \<Rightarrow> panic + string \<times> string" where
  "plainObject_twice getSize randASCIIBytes c cr =
     (case plainObject getSize randASCIIBytes c cr of
        Inl p \<Rightarrow> Inl p
      | Inr (c1, cr1) \<Rightarrow>
          (case plainObject getSize randASCIIBytes c1 cr1 of
             Inl p \<Rightarrow> Inl p
           | Inr (c2, cr2) \<Rightarrow> Inr (ob_Name (ps_obj c1), ob_Name (ps_obj c2))))"

section \<open>The Text Source: \<^verbatim>\<open>textSrc\<close> (text.go)\<close>

record textSrc =
  ts_counter :: "64 word"
  ts_o :: Options
  ts_buf :: circularBuffer
  ts_rng :: mrand
  ts_obj :: Object

text \<open>\<^verbatim>\<open>newText(o)\<close>, with \<open>rng\<close> as for \<^verbatim>\<open>newRandom\<close>.\<close>

definition newText :: "Options \<Rightarrow> mrand \<Rightarrow> error + textSrc" where
  "newText opts rng =
     (let size = opt_textSize opts;
          size = (if size > opt_totalSize opts then opt_totalSize opts else size)
      in if size \<le> 0 then Inl (SizeError size)
         else (case readFull rng (nat size) of
                 (seed, err, rng') \<Rightarrow>
                   if err then Inl ReadError
                   else Inr \<lparr>ts_counter = 0,
                             ts_o = opts,
                             ts_buf = newCircularBuffer seed size,
                             ts_rng = rng',
                             ts_obj = setPrefix \<lparr>ob_Reader = None, ob_Name = [],
                                                 ob_ContentType = ''text/plain'', ob_Size = 0,
                                                 ob_Prefix = []\<rparr> opts\<rparr>))"

text \<open>The \<^verbatim>\<open>%d\<close> verb of \<^verbatim>\<open>fmt.Sprintf\<close> on an unsigned value.\<close>

definition digit :: "nat \<Rightarrow> char" where
  "digit n = ''0123456789'' ! n"

function decimal :: "nat \<Rightarrow> string" where
  "decimal n = (if n < 10 then [digit n] else decimal (n div 10) @ [digit (n mod 10)])"
  by pat_completeness auto
termination
  by (relation "measure id") auto

declare decimal.simps [simp del]

text \<open>
  \<^verbatim>\<open>(*textSrc).Object()\<close>. The result is \<open>None\<close> when the call does not return.
\<close>

definition textObject ::
  "getSize_fn \<Rightarrow> randASCIIBytes_fn \<Rightarrow> textSrc \<Rightarrow> crand \<Rightarrow> (panic + textSrc \<times> crand) option" where
  "textObject getSize randASCIIBytes t cr =
     (let counter' = ts_counter t + 1
      in case getSize (ts_o t) (ts_rng t) of
           (sz, rng1) \<Rightarrow>
             (case build_loop sz (opt_compRatio (ts_o t)) (opt_compWindow (ts_o t)) [] cr of
                None \<Rightarrow> None
              | Some (Inl p) \<Rightarrow> Some (Inl p)
              | Some (Inr (builder, cr')) \<Rightarrow>
                  (case randASCIIBytes rng1 of
                     (nBuf, rng2) \<Rightarrow>
                       (case Reset ((ts_buf t)\<lparr>cb_data := builder\<rparr>) sz of
                          Inl p \<Rightarrow> Some (Inl p)
                        | Inr buf' \<Rightarrow>
                            Some (Inr (t\<lparr>ts_counter := counter',
                                         ts_rng := rng2,
                                         ts_buf := buf',
                                         ts_obj := setName ((ts_obj t)\<lparr>ob_Size := sz,
                                                                    ob_Reader := Some buf'\<rparr>)
                                                           (decimal (unat counter') @ ''.'' @ nBuf
                                                            @ ''.txt'')\<rparr>, cr'))))))"

section \<open>Concrete inputs\<close>

text \<open>
  A secure source that delivers the bytes 0, 1, 2, ... and never fails, and one whose every
  read fails.
\<close>

definition countingSource :: crand where
  "countingSource =
     \<lparr>cr_bytes = (\<lambda>k. word_of_nat k), cr_pos = 0, cr_fails = (\<lambda>k. False), cr_calls = 0\<rparr>"

definition failingSource :: crand where
  "failingSource =
     \<lparr>cr_bytes = (\<lambda>k. word_of_nat k), cr_pos = 0, cr_fails = (\<lambda>k. True), cr_calls = 0\<rparr>"

text \<open>A seeded generator whose \<^verbatim>\<open>Read\<close> delivers the byte 255 throughout.\<close>

definition onesRng :: mrand where
  "onesRng = \<lparr>mr_bytes = (\<lambda>k. 255), mr_pos = 0\<rparr>"

text \<open>
  Modelled from the spec: \<^verbatim>\<open>getSize\<close> for a configuration whose size is not randomized,
  where the object size is the total size (section 3, \<^emph>\<open>totalSize: target size when not
  randomized\<close>); and a \<^verbatim>\<open>randASCIIBytes\<close> whose draw comes out as sixteen times the
  letter a.
\<close>

definition fixedSize :: getSize_fn where
  "fixedSize opts rng = (opt_totalSize opts, rng)"

definition sameSuffix :: randASCIIBytes_fn where
  "sameSuffix rng = (''aaaaaaaaaaaaaaaa'', rng)"

definition exampleOptions :: "int \<Rightarrow> int \<Rightarrow> int \<Rightarrow> Options" where
  "exampleOptions totalSize ratio window =
     \<lparr>opt_totalSize = totalSize, opt_randomSize = 2, opt_textSize = 2,
      opt_compRatio = ratio, opt_compWindow = window, opt_prefix = ''bench''\<rparr>"

text \<open>
  The instances that \<^verbatim>\<open>newRandom\<close> and \<^verbatim>\<open>newText\<close> build from these options and
  this generator.
\<close>

definition plainInstance :: "int \<Rightarrow> plainSrc" where
  "plainInstance totalSize =
     \<lparr>ps_o = exampleOptions totalSize 0 0,
      ps_rng = onesRng\<lparr>mr_pos := 2\<rparr>,
      ps_obj = \<lparr>ob_Reader = None, ob_Name = [], ob_ContentType = ''text/plain'', ob_Size = 0,
                ob_Prefix = ''bench''\<rparr>,
      ps_buf = \<lparr>cb_data = [255, 255], cb_want = totalSize\<rparr>,
      ps_builder = []\<rparr>"

definition textInstance :: "int \<Rightarrow> int \<Rightarrow> int \<Rightarrow> textSrc" where
  "textInstance totalSize ratio window =
     \<lparr>ts_counter = 0,
      ts_o = exampleOptions totalSize ratio window,
      ts_buf = \<lparr>cb_data = [255, 255], cb_want = 2\<rparr>,
      ts_rng = onesRng\<lparr>mr_pos := 2\<rparr>,
      ts_obj = \<lparr>ob_Reader = None, ob_Name = [], ob_ContentType = ''text/plain'', ob_Size = 0,
                ob_Prefix = ''bench''\<rparr>\<rparr>"

section \<open>Loop properties of the synthesizer\<close>

lemma repeat_loop_done: "repeat_loop b u (int (length b)) = Some b"
  by (subst repeat_loop.simps) simp

lemma repeat_loop_step:
  "int (length b) \<noteq> r \<Longrightarrow> repeat_loop b u r = repeat_loop (b @ u) u r"
  by (subst repeat_loop.simps) simp

lemma repeat_loop_replicate:
  assumes "u \<noteq> []" "j \<le> k"
  shows "repeat_loop (concat (replicate j u)) u (int (length u) * int k)
         = Some (concat (replicate k u))"
  using assms(2)
proof (induction "k - j" arbitrary: j)
  case 0
  then have "j = k" by simp
  then show ?case
    using repeat_loop_done [of "concat (replicate k u)" u]
    by (simp add: length_concat sum_list_replicate mult.commute)
next
  case (Suc d)
  then have lt: "j < k" and d: "d = k - Suc j" and le: "Suc j \<le> k" by simp_all
  have len: "int (length (concat (replicate j u))) = int (length u) * int j"
    by (simp add: length_concat sum_list_replicate mult.commute)
  have "int (length u) * int j \<noteq> int (length u) * int k"
    using lt assms(1) by simp
  then have "repeat_loop (concat (replicate j u)) u (int (length u) * int k)
      = repeat_loop (concat (replicate j u) @ u) u (int (length u) * int k)"
    using len by (simp add: repeat_loop_step)
  also have "concat (replicate j u) @ u = concat (replicate (Suc j) u)"
  proof -
    have "replicate (Suc j) u = replicate j u @ [u]"
      by (simp add: replicate_append_same)
    then show ?thesis by (simp only: concat_append concat.simps append_Nil2)
  qed
  also have "repeat_loop \<dots> u (int (length u) * int k) = Some (concat (replicate k u))"
    using Suc.hyps(1) [OF d le] .
  finally show ?case .
qed

lemma rem_loop_nonpos: "r \<le> 0 \<Longrightarrow> rem_loop i r b = Inr b"
  by (subst rem_loop.simps) simp

lemma rem_loop_empty: "0 < r \<Longrightarrow> rem_loop 0 r [] = Inl IndexOutOfRange"
  by (subst rem_loop.simps) simp

lemma rem_loop_take:
  assumes "i \<le> n" "n \<le> length b"
  shows "rem_loop i (int n) (b @ take i b) = Inr (b @ take n b)"
  using assms
proof (induction "n - i" arbitrary: i)
  case 0
  then have "i = n" by simp
  then show ?case by (subst rem_loop.simps) simp
next
  case (Suc d)
  then have lt: "i < n" and d: "d = n - Suc i" and le: "Suc i \<le> n" by simp_all
  have ib: "i < length b" using lt Suc.prems by simp
  have nth: "(b @ take i b) ! i = b ! i" using ib by (simp add: nth_append)
  have ib': "i < length (b @ take i b)" using ib by auto
  have "rem_loop i (int n) (b @ take i b)
      = rem_loop (Suc i) (int n) ((b @ take i b) @ [(b @ take i b) ! i])"
    by (subst rem_loop.simps) (simp only: ib' lt of_nat_less_iff if_True)
  also have "(b @ take i b) @ [(b @ take i b) ! i] = b @ take (Suc i) b"
    using ib nth by (simp add: take_Suc_conv_app_nth)
  also have "rem_loop (Suc i) (int n) \<dots> = Inr (b @ take n b)"
    using Suc.hyps(1) [OF d le Suc.prems(2)] .
  finally show ?case .
qed

lemma length_fresh: "length (fresh cr n) = n"
  by (simp add: fresh_def)

lemma sdiv_nonneg: "0 \<le> a \<Longrightarrow> 0 < b \<Longrightarrow> (a::int) sdiv b = a div b"
  by (simp add: signed_divide_int_def sgn_if)

lemma smod_nonneg: "0 \<le> a \<Longrightarrow> 0 < b \<Longrightarrow> (a::int) smod b = a mod b"
  by (simp add: smod_mod_positive)

lemma length_concat_replicate: "length (concat (replicate k u)) = k * length u"
  by (simp add: length_concat sum_list_replicate)

lemma genData_run:
  assumes plan: "genPlan reqSize compRatio compWindow = (int u, int r, int u * int k)"
    and u: "0 < u" and r: "r \<le> u * k"
  shows "genData reqSize compRatio compWindow cr =
    (if cr_fails cr (cr_calls cr)
     then Some (Inr ([], cr\<lparr>cr_calls := Suc (cr_calls cr)\<rparr>))
     else Some (Inr (concat (replicate k (fresh cr u)) @ take r (concat (replicate k (fresh cr u))),
                     cr\<lparr>cr_pos := cr_pos cr + u, cr_calls := Suc (cr_calls cr)\<rparr>)))"
proof (cases "cr_fails cr (cr_calls cr)")
  case True
  then show ?thesis using u by (simp add: genData_def plan cRead_def)
next
  case False
  let ?U = "fresh cr u"
  let ?B = "concat (replicate k ?U)"
  have ne: "?U \<noteq> []" using u length_fresh [of cr u] by auto
  have rep: "repeat_loop [] ?U (int u * int k) = Some ?B"
    using repeat_loop_replicate [OF ne, of 0 k] by (simp add: length_fresh)
  have "r \<le> length ?B" using r by (simp add: length_concat_replicate length_fresh mult.commute)
  then have rem: "rem_loop 0 (int r) ?B = Inr (?B @ take r ?B)"
    using rem_loop_take [of 0 r ?B] by simp
  show ?thesis using False u by (simp add: genData_def plan cRead_def rep rem)
qed

lemma genPlan_floor:
  assumes "1 \<le> reqSize" "reqSize < compRatio" "reqSize \<le> compWindow"
  shows "genPlan reqSize compRatio compWindow = (1, 0, reqSize)"
  using assms by (simp add: genPlan_def sdiv_nonneg)

lemma genPlan_fit:
  assumes "0 < compRatio" "compRatio \<le> reqSize" "reqSize \<le> compWindow"
  shows "genPlan reqSize compRatio compWindow =
    (reqSize div compRatio, reqSize mod compRatio, (reqSize div compRatio) * compRatio)"
proof -
  have "0 < reqSize div compRatio" using assms by (simp add: pos_imp_zdiv_pos_iff)
  then show ?thesis using assms by (simp add: genPlan_def sdiv_nonneg smod_nonneg)
qed

lemma genPlan_window:
  assumes "0 < compRatio" "compWindow < reqSize" "0 \<le> compWindow"
  shows "genPlan reqSize compRatio compWindow =
    (compWindow div compRatio, compWindow mod compRatio, (compWindow div compRatio) * compRatio)"
  using assms by (simp add: genPlan_def sdiv_nonneg smod_nonneg)

lemma genPlan_raw:
  assumes "compRatio \<le> 0"
  shows "genPlan reqSize compRatio compWindow = (reqSize, 0, reqSize)"
  using assms by (simp add: genPlan_def)

lemma genData_divided:
  assumes plan: "genPlan reqSize compRatio compWindow = (m div compRatio, m mod compRatio, (m div compRatio) * compRatio)"
    and ratio: "0 < compRatio" and m: "compRatio \<le> m"
  shows "\<exists>bs cr'. genData reqSize compRatio compWindow cr = Some (Inr (bs, cr')) \<and>
           int (length bs) = (if cr_fails cr (cr_calls cr) then 0 else m)"
proof -
  let ?u = "nat (m div compRatio)" and ?r = "nat (m mod compRatio)" and ?k = "nat compRatio"
  have upos: "0 < m div compRatio" using ratio m by (simp add: pos_imp_zdiv_pos_iff)
  have rpos: "0 \<le> m mod compRatio" and rlt: "m mod compRatio < compRatio" using ratio by simp_all
  have plan': "genPlan reqSize compRatio compWindow = (int ?u, int ?r, int ?u * int ?k)"
    using plan upos rpos ratio by simp
  have u: "0 < ?u" using upos by simp
  have "compRatio \<le> (m div compRatio) * compRatio" using upos ratio by simp
  then have "m mod compRatio \<le> (m div compRatio) * compRatio" using rlt by linarith
  then have r: "?r \<le> ?u * ?k"
    using upos ratio rpos by (simp add: nat_le_iff nat_mult_distrib)
  have tot: "int (?k * ?u + ?r) = m"
    using upos ratio rpos by (simp add: mult.commute)
  have len: "length (concat (replicate ?k (fresh cr ?u)) @ take ?r (concat (replicate ?k (fresh cr ?u))))
      = ?k * ?u + ?r"
    using r by (simp add: length_concat_replicate length_fresh mult.commute)
  show ?thesis
    unfolding genData_run [OF plan' u r] using len tot by (simp del: of_nat_add of_nat_mult)
qed

lemma genData_raw:
  assumes "compRatio \<le> 0" "1 \<le> reqSize"
  shows "\<exists>bs cr'. genData reqSize compRatio compWindow cr = Some (Inr (bs, cr')) \<and>
           int (length bs) = (if cr_fails cr (cr_calls cr) then 0 else reqSize)"
proof -
  have plan: "genPlan reqSize compRatio compWindow = (int (nat reqSize), int 0, int (nat reqSize) * int 1)"
    using assms by (simp add: genPlan_raw)
  have u: "0 < nat reqSize" using assms by simp
  have g: "genData reqSize compRatio compWindow cr =
    (if cr_fails cr (cr_calls cr)
     then Some (Inr ([], cr\<lparr>cr_calls := Suc (cr_calls cr)\<rparr>))
     else Some (Inr (concat (replicate 1 (fresh cr (nat reqSize))) @ take 0 (concat (replicate 1 (fresh cr (nat reqSize)))),
                     cr\<lparr>cr_pos := cr_pos cr + nat reqSize, cr_calls := Suc (cr_calls cr)\<rparr>)))"
    by (rule genData_run [OF plan u]) simp
  show ?thesis
    unfolding g using assms by (simp add: length_fresh)
qed

lemma genData_floor:
  assumes "0 \<le> reqSize" "reqSize < compRatio" "reqSize \<le> compWindow"
  shows "genData reqSize compRatio compWindow cr =
    (if cr_fails cr (cr_calls cr)
     then Some (Inr ([], cr\<lparr>cr_calls := Suc (cr_calls cr)\<rparr>))
     else Some (Inr (replicate (nat reqSize) (cr_bytes cr (cr_pos cr)),
                     cr\<lparr>cr_pos := cr_pos cr + 1, cr_calls := Suc (cr_calls cr)\<rparr>)))"
proof -
  have "genPlan reqSize compRatio compWindow = (1, 0, reqSize)"
    using assms by (simp add: genPlan_def sdiv_nonneg)
  then have plan: "genPlan reqSize compRatio compWindow = (int 1, int 0, int 1 * int (nat reqSize))"
    using assms by simp
  have one: "fresh cr (Suc 0) = [cr_bytes cr (cr_pos cr)]" by (simp add: fresh_def)
  have rep: "concat (replicate n [x]) = replicate n x" for n and x :: byte
    by (induction n) simp_all
  have g: "genData reqSize compRatio compWindow cr =
    (if cr_fails cr (cr_calls cr)
     then Some (Inr ([], cr\<lparr>cr_calls := Suc (cr_calls cr)\<rparr>))
     else Some (Inr (concat (replicate (nat reqSize) (fresh cr 1)) @ take 0 (concat (replicate (nat reqSize) (fresh cr 1))),
                     cr\<lparr>cr_pos := cr_pos cr + 1, cr_calls := Suc (cr_calls cr)\<rparr>)))"
    by (rule genData_run [OF plan]) simp_all
  show ?thesis
    unfolding g by (simp add: one rep)
qed

lemma genData_window_panic:
  assumes "0 < compWindow" "compWindow < compRatio" "compWindow < reqSize"
  shows "genPlan reqSize compRatio compWindow = (0, compWindow, 0)"
    and "genData reqSize compRatio compWindow cr = Some (Inl IndexOutOfRange)"
proof -
  show plan: "genPlan reqSize compRatio compWindow = (0, compWindow, 0)"
    using assms by (simp add: genPlan_def sdiv_nonneg smod_nonneg)
  have rep: "repeat_loop [] [] 0 = Some []"
    using repeat_loop_done [of "[]" "[]"] by simp
  show "genData reqSize compRatio compWindow cr = Some (Inl IndexOutOfRange)"
    using assms(1) by (simp add: genData_def plan cRead_def rep rem_loop_empty)
qed

lemma genData_zero_window:
  assumes "0 < compRatio" "0 < reqSize"
  shows "genData reqSize compRatio 0 cr = Some (Inr ([], cr))"
proof -
  have plan: "genPlan reqSize compRatio 0 = (0, 0, 0)"
    using assms by (simp add: genPlan_def)
  have rep: "repeat_loop [] [] 0 = Some []"
    using repeat_loop_done [of "[]" "[]"] by simp
  show ?thesis by (simp add: genData_def plan cRead_def rep rem_loop_nonpos)
qed

section \<open>When the accumulation loop makes no progress\<close>

lemma build_loop_stuck:
  assumes step: "\<And>cr. P cr \<Longrightarrow> \<exists>cr'. genData objSize compRatio compWindow cr = Some (Inr ([], cr')) \<and> P cr'"
    and pos: "0 < objSize" and start: "P cr"
  shows "build_loop objSize compRatio compWindow [] cr = None"
proof -
  let ?stuck = "\<lambda>s r w b c (y :: panic + byte list \<times> crand).
      \<not> (s = objSize \<and> r = compRatio \<and> w = compWindow \<and> b = [] \<and> P c)"
  have "?stuck s r w b c y" if run: "build_loop s r w b c = Some y" for s r w b c y
  proof (rule build_loop.raw_induct [where P = ?stuck, OF _ run])
    fix loop s r w b c y
    assume IH: "\<And>s r w b c y. loop s r w b c = Some y \<Longrightarrow> ?stuck s r w b c y"
      and eq: "(if int (length b) < s
           then case genData (s - int (length b)) r w c of
                  None \<Rightarrow> None
                | Some (Inl p) \<Rightarrow> Some (Inl p)
                | Some (Inr (bs, cr')) \<Rightarrow> loop s r w (b @ bs) cr'
           else Some (Inr (b, c))) = Some y"
    show "?stuck s r w b c y"
    proof
      assume a: "s = objSize \<and> r = compRatio \<and> w = compWindow \<and> b = [] \<and> P c"
      then obtain c' where g: "genData objSize compRatio compWindow c = Some (Inr ([], c'))"
        and p: "P c'" using step [of c] by blast
      from eq have "loop objSize compRatio compWindow [] c' = Some y"
        using a pos g by simp
      from IH [OF this] p show False by simp
    qed
  qed
  then have "build_loop objSize compRatio compWindow [] cr \<noteq> Some y" for y
    using start by blast
  then show ?thesis by (cases "build_loop objSize compRatio compWindow [] cr") auto
qed

lemma build_loop_zero_window: "build_loop 1 1 0 [] cr = None"
  by (rule build_loop_stuck [where P = "\<lambda>_. True"]) (simp_all add: genData_zero_window)

lemma build_loop_failing_reads:
  assumes "\<forall>k. cr_fails cr k" "0 < objSize"
  shows "build_loop objSize 0 compWindow [] cr = None"
proof (rule build_loop_stuck [where P = "\<lambda>c. \<forall>k. cr_fails c k"])
  fix c :: crand assume f: "\<forall>k. cr_fails c k"
  have plan: "genPlan objSize 0 compWindow = (int (nat objSize), int 0, int (nat objSize) * int 1)"
    using assms(2) by (simp add: genPlan_raw)
  have u: "0 < nat objSize" using assms(2) by simp
  have g: "genData objSize 0 compWindow c =
    (if cr_fails c (cr_calls c)
     then Some (Inr ([], c\<lparr>cr_calls := Suc (cr_calls c)\<rparr>))
     else Some (Inr (concat (replicate 1 (fresh c (nat objSize))) @ take 0 (concat (replicate 1 (fresh c (nat objSize)))),
                     c\<lparr>cr_pos := cr_pos c + nat objSize, cr_calls := Suc (cr_calls c)\<rparr>)))"
    by (rule genData_run [OF plan u]) simp
  show "\<exists>cr'. genData objSize 0 compWindow c = Some (Inr ([], cr')) \<and> (\<forall>k. cr_fails cr' k)"
    unfolding g using f by simp
qed (use assms in simp_all)

section \<open>Claims about \<^verbatim>\<open>genData\<close>\<close>

text \<open>
  C2 (amended). For \<open>reqSize \<ge> 1\<close>, \<open>compRatio \<ge> 0\<close> and \<open>compWindow \<ge> 1\<close>, in each of
  the cases \<open>compRatio = 0\<close>, \<open>reqSize \<le> compWindow\<close> and \<open>compRatio \<le> compWindow\<close> the call
  returns a slice. Its length is 0 when the secure read fails; otherwise it is \<open>reqSize\<close>
  when \<open>compRatio = 0\<close> or \<open>reqSize \<le> compWindow\<close>, and \<open>compWindow\<close> when the request
  exceeds the window (the caller's loop asks again for the rest).
\<close>

theorem genData_length:
  assumes "1 \<le> reqSize" and "0 \<le> compRatio" and "1 \<le> compWindow"
    and "compRatio = 0 \<or> reqSize \<le> compWindow \<or> compRatio \<le> compWindow"
  shows "\<exists>bs cr'. genData reqSize compRatio compWindow cr = Some (Inr (bs, cr')) \<and>
           int (length bs) =
             (if cr_fails cr (cr_calls cr) then 0
              else if compRatio = 0 \<or> reqSize \<le> compWindow then reqSize
              else compWindow)"
proof -
  consider (raw) "compRatio = 0"
    | (floor) "0 < compRatio" "reqSize \<le> compWindow" "reqSize < compRatio"
    | (fit) "0 < compRatio" "reqSize \<le> compWindow" "compRatio \<le> reqSize"
    | (window) "0 < compRatio" "compWindow < reqSize" "compRatio \<le> compWindow"
    using assms by linarith
  then show ?thesis
  proof cases
    case raw
    then obtain bs cr' where "genData reqSize compRatio compWindow cr = Some (Inr (bs, cr'))"
      and "int (length bs) = (if cr_fails cr (cr_calls cr) then 0 else reqSize)"
      using genData_raw [of compRatio reqSize compWindow cr] assms(1) by auto
    then show ?thesis using raw by simp
  next
    case floor
    have "0 \<le> reqSize" using assms(1) by simp
    from genData_floor [OF this floor(3) floor(2), of cr]
    show ?thesis using floor assms(1) by simp
  next
    case fit
    from genData_divided [OF genPlan_fit [OF fit(1) fit(3) fit(2)] fit(1) fit(3), of cr]
    obtain bs cr' where "genData reqSize compRatio compWindow cr = Some (Inr (bs, cr'))"
      and "int (length bs) = (if cr_fails cr (cr_calls cr) then 0 else reqSize)"
      by blast
    then show ?thesis using fit by simp
  next
    case window
    have "0 \<le> compWindow" using assms(3) by simp
    from genData_divided [OF genPlan_window [OF window(1) window(2) this] window(1) window(3), of cr]
    obtain bs cr' where "genData reqSize compRatio compWindow cr = Some (Inr (bs, cr'))"
      and "int (length bs) = (if cr_fails cr (cr_calls cr) then 0 else compWindow)"
      by blast
    then show ?thesis using window by simp
  qed
qed

theorem genData_length_witness:
  "\<exists>bs cr'. genData 5 1 2 countingSource = Some (Inr (bs, cr')) \<and> int (length bs) = 2"
  using genData_length [of 5 1 2 countingSource] by (simp add: countingSource_def)

lemma fresh_counting: "fresh countingSource 2 = [0, 1]"
  by (simp add: fresh_def countingSource_def upt_rec)

text \<open>
  C2 as stated fails: a request of 5 bytes with ratio 1 and window 2 returns 2 bytes.
\<close>

theorem genData_length_counterexample:
  "genData 5 1 2 countingSource =
     Some (Inr ([0, 1], countingSource\<lparr>cr_pos := 2, cr_calls := 1\<rparr>))
   \<and> int (length [0, 1 :: byte]) \<noteq> 5"
proof -
  have plan: "genPlan 5 1 2 = (int 2, int 0, int 2 * int 1)"
    by (simp add: genPlan_def signed_modulo_int_def)
  have "genData 5 1 2 countingSource =
    (if cr_fails countingSource (cr_calls countingSource)
     then Some (Inr ([], countingSource\<lparr>cr_calls := Suc (cr_calls countingSource)\<rparr>))
     else Some (Inr (concat (replicate 1 (fresh countingSource 2))
                     @ take 0 (concat (replicate 1 (fresh countingSource 2))),
                     countingSource\<lparr>cr_pos := cr_pos countingSource + 2,
                                     cr_calls := Suc (cr_calls countingSource)\<rparr>)))"
    by (rule genData_run [OF plan]) simp_all
  then show ?thesis by (simp add: fresh_counting) (simp add: countingSource_def)
qed

text \<open>
  C6 (amended). For \<open>1 \<le> reqSize < compRatio\<close> with \<open>reqSize \<le> compWindow\<close> and a secure read
  that succeeds, the plan falls back to a unique block of length 1 with remainder 0, and the
  call returns exactly \<open>reqSize\<close> bytes, all equal to the one byte read.
\<close>

theorem genData_small_request:
  assumes "1 \<le> reqSize" and "reqSize < compRatio" and "reqSize \<le> compWindow"
    and "\<not> cr_fails cr (cr_calls cr)"
  shows "genPlan reqSize compRatio compWindow = (1, 0, reqSize) \<and>
         genData reqSize compRatio compWindow cr =
           Some (Inr (replicate (nat reqSize) (cr_bytes cr (cr_pos cr)),
                      cr\<lparr>cr_pos := cr_pos cr + 1, cr_calls := Suc (cr_calls cr)\<rparr>))"
  using assms genData_floor [of reqSize compRatio compWindow cr] genPlan_floor [of reqSize compRatio compWindow]
  by simp

theorem genData_small_request_witness:
  "genPlan 2 3 5 = (1, 0, 2) \<and>
   genData 2 3 5 countingSource =
     Some (Inr ([0, 0], countingSource\<lparr>cr_pos := 1, cr_calls := 1\<rparr>))"
  using genData_small_request [of 2 3 5 countingSource]
  by (simp add: countingSource_def numeral_2_eq_2)

text \<open>
  C6 as stated fails: with \<open>reqSize = 2 < compRatio = 3\<close> and window 1 the call panics, and
  with window 5 and a failing secure read it returns the empty slice.
\<close>

theorem genData_small_request_counterexample:
  "genData 2 3 1 countingSource = Some (Inl IndexOutOfRange) \<and>
   genData 2 3 5 failingSource = Some (Inr ([], failingSource\<lparr>cr_calls := 1\<rparr>))"
proof
  show "genData 2 3 1 countingSource = Some (Inl IndexOutOfRange)"
    by (rule genData_window_panic) simp_all
  show "genData 2 3 5 failingSource = Some (Inr ([], failingSource\<lparr>cr_calls := 1\<rparr>))"
    using genData_floor [of 2 3 5 failingSource] by (simp add: failingSource_def)
qed

lemma genData_raw_zero:
  assumes "compRatio \<le> 0"
  shows "genData 0 compRatio compWindow cr = Some (Inr ([], cr))"
proof -
  have plan: "genPlan 0 compRatio compWindow = (0, 0, 0)"
    using assms by (simp add: genPlan_def)
  have rep: "repeat_loop [] [] 0 = Some []"
    using repeat_loop_done [of "[]" "[]"] by simp
  show ?thesis by (simp add: genData_def plan cRead_def rep rem_loop_nonpos)
qed

lemma genData_returns:
  assumes win: "0 < compWindow" and req: "0 \<le> reqSize"
    and dom: "compRatio = 0 \<or> reqSize \<le> compWindow \<or> compRatio \<le> compWindow"
  shows "\<exists>bs cr'. genData reqSize compRatio compWindow cr = Some (Inr (bs, cr'))"
proof -
  consider (zero) "compRatio \<le> 0" "reqSize = 0"
    | (raw) "compRatio \<le> 0" "1 \<le> reqSize"
    | (floor) "0 < compRatio" "reqSize \<le> compWindow" "reqSize < compRatio"
    | (fit) "0 < compRatio" "reqSize \<le> compWindow" "compRatio \<le> reqSize"
    | (window) "0 < compRatio" "compWindow < reqSize" "compRatio \<le> compWindow"
    using req dom by linarith
  then show ?thesis
  proof cases
    case zero
    then show ?thesis using genData_raw_zero [of compRatio compWindow cr] by simp
  next
    case raw
    from genData_raw [OF raw, of compWindow cr] show ?thesis by blast
  next
    case floor
    from genData_floor [OF req floor(3) floor(2), of cr] show ?thesis by simp
  next
    case fit
    from genData_divided [OF genPlan_fit [OF fit(1) fit(3) fit(2)] fit(1) fit(3), of cr]
    show ?thesis by blast
  next
    case window
    have "0 \<le> compWindow" using win by simp
    from genData_divided [OF genPlan_window [OF window(1) window(2) this] window(1) window(3), of cr]
    show ?thesis by blast
  qed
qed

text \<open>
  C10 (amended). For \<open>0 < compWindow < compRatio\<close> and \<open>reqSize > compWindow\<close> the plan has
  unique length 0 and remainder \<open>compWindow\<close>, the repeat loop leaves the builder empty, the
  remainder loop reads index 0 of the empty builder, and the call panics with an index out
  of range. For a window above 0 the call returns a slice only when \<open>compRatio = 0\<close>,
  \<open>reqSize \<le> compWindow\<close> or \<open>compWindow \<ge> compRatio\<close>, and for \<open>reqSize \<ge> 0\<close> it does
  return in each of these cases.
\<close>

theorem genData_window_below_ratio:
  assumes "0 < compWindow"
  shows "(compWindow < compRatio \<and> compWindow < reqSize \<longrightarrow>
            genPlan reqSize compRatio compWindow = (0, compWindow, 0) \<and>
            repeat_loop [] [] 0 = Some [] \<and>
            rem_loop 0 compWindow [] = Inl IndexOutOfRange \<and>
            genData reqSize compRatio compWindow cr = Some (Inl IndexOutOfRange))
       \<and> ((\<exists>bs cr'. genData reqSize compRatio compWindow cr = Some (Inr (bs, cr'))) \<longrightarrow>
            compRatio = 0 \<or> reqSize \<le> compWindow \<or> compRatio \<le> compWindow)
       \<and> (0 \<le> reqSize \<and> (compRatio = 0 \<or> reqSize \<le> compWindow \<or> compRatio \<le> compWindow) \<longrightarrow>
            (\<exists>bs cr'. genData reqSize compRatio compWindow cr = Some (Inr (bs, cr'))))"
proof (intro conjI impI)
  assume a: "compWindow < compRatio \<and> compWindow < reqSize"
  then have lt: "compWindow < compRatio" and gt: "compWindow < reqSize" by simp_all
  show "genPlan reqSize compRatio compWindow = (0, compWindow, 0)"
    using genData_window_panic(1) [OF assms lt gt] .
  show "repeat_loop [] [] 0 = Some []"
    using repeat_loop_done [of "[]" "[]"] by simp
  show "rem_loop 0 compWindow [] = Inl IndexOutOfRange"
    using assms by (rule rem_loop_empty)
  show "genData reqSize compRatio compWindow cr = Some (Inl IndexOutOfRange)"
    using genData_window_panic(2) [OF assms lt gt] .
next
  assume ret: "\<exists>bs cr'. genData reqSize compRatio compWindow cr = Some (Inr (bs, cr'))"
  show "compRatio = 0 \<or> reqSize \<le> compWindow \<or> compRatio \<le> compWindow"
  proof (rule ccontr)
    assume "\<not> (compRatio = 0 \<or> reqSize \<le> compWindow \<or> compRatio \<le> compWindow)"
    then have lt: "compWindow < compRatio" and gt: "compWindow < reqSize" by simp_all
    from genData_window_panic(2) [OF assms lt gt, of cr] ret show False by simp
  qed
next
  assume "0 \<le> reqSize \<and> (compRatio = 0 \<or> reqSize \<le> compWindow \<or> compRatio \<le> compWindow)"
  then show "\<exists>bs cr'. genData reqSize compRatio compWindow cr = Some (Inr (bs, cr'))"
    using genData_returns [OF assms, of reqSize compRatio cr] by blast
qed

theorem genData_window_below_ratio_witness:
  "genPlan 2 3 1 = (0, 1, 0) \<and> repeat_loop [] [] 0 = Some [] \<and>
   rem_loop 0 1 [] = Inl IndexOutOfRange \<and>
   genData 2 3 1 countingSource = Some (Inl IndexOutOfRange) \<and>
   (\<exists>bs cr'. genData 1 3 1 countingSource = Some (Inr (bs, cr'))) \<and>
   (\<exists>bs cr'. genData 5 1 2 countingSource = Some (Inr (bs, cr')))"
  using genData_window_below_ratio [of 1 3 2 countingSource]
    genData_window_below_ratio [of 1 3 1 countingSource]
    genData_window_below_ratio [of 2 1 5 countingSource]
  by simp

text \<open>
  C10 as stated fails in its closing clause: with window 0 the call for 1 byte at ratio 1
  returns (the empty slice), and with ratio -1 and window -5 the call for 3 bytes returns,
  although in both \<open>compRatio \<noteq> 0\<close>, \<open>reqSize > compWindow\<close> and \<open>compWindow < compRatio\<close>.
\<close>

theorem genData_window_below_ratio_counterexample:
  "genData 1 1 0 countingSource = Some (Inr ([], countingSource))
   \<and> (1 :: int) \<noteq> 0 \<and> \<not> (1 :: int) \<le> 0
   \<and> genData 3 (- 1) (- 5) countingSource =
       Some (Inr ([0, 1, 2], countingSource\<lparr>cr_pos := 3, cr_calls := 1\<rparr>))
   \<and> (- 1 :: int) \<noteq> 0 \<and> \<not> (3 :: int) \<le> - 5 \<and> \<not> (- 1 :: int) \<le> - 5"
proof -
  have a: "genData 1 1 0 countingSource = Some (Inr ([], countingSource))"
    by (rule genData_zero_window) simp_all
  have plan: "genPlan 3 (- 1) (- 5) = (int 3, int 0, int 3 * int 1)"
    by (simp add: genPlan_def)
  have f3: "fresh countingSource 3 = [0, 1, 2]"
    by (simp add: fresh_def countingSource_def upt_rec)
  have "genData 3 (- 1) (- 5) countingSource =
    (if cr_fails countingSource (cr_calls countingSource)
     then Some (Inr ([], countingSource\<lparr>cr_calls := Suc (cr_calls countingSource)\<rparr>))
     else Some (Inr (concat (replicate 1 (fresh countingSource 3))
                     @ take 0 (concat (replicate 1 (fresh countingSource 3))),
                     countingSource\<lparr>cr_pos := cr_pos countingSource + 3,
                                     cr_calls := Suc (cr_calls countingSource)\<rparr>)))"
    by (rule genData_run [OF plan]) simp_all
  then have b: "genData 3 (- 1) (- 5) countingSource =
       Some (Inr ([0, 1, 2], countingSource\<lparr>cr_pos := 3, cr_calls := 1\<rparr>))"
    by (simp add: f3) (simp add: countingSource_def)
  show ?thesis using a b by simp
qed

text \<open>
  C8 fails on the code: for target size 1, ratio 1 and window 0 every \<^verbatim>\<open>genData\<close> call
  returns the empty slice, and so does every call whose secure read fails; the builder never
  grows and the accumulation loop of \<^verbatim>\<open>textSrc.Object\<close> does not return.
\<close>

theorem build_loop_diverges:
  "build_loop 1 1 0 [] cr = None \<and> build_loop 1 0 1 [] failingSource = None"
proof
  show "build_loop 1 1 0 [] cr = None" by (rule build_loop_zero_window)
  show "build_loop 1 0 1 [] failingSource = None"
    by (rule build_loop_failing_reads) (simp_all add: failingSource_def)
qed

section \<open>Properties of the two sources\<close>

lemma newRandom_example:
  "2 \<le> totalSize \<Longrightarrow> newRandom (exampleOptions totalSize 0 0) onesRng = Inr (plainInstance totalSize)"
  by (simp add: newRandom_def exampleOptions_def onesRng_def readFull_def plainInstance_def
      setPrefix_def newCircularBuffer_def upt_rec numeral_2_eq_2)

lemma newText_example:
  "2 \<le> totalSize \<Longrightarrow> newText (exampleOptions totalSize r w) onesRng = Inr (textInstance totalSize r w)"
  by (simp add: newText_def exampleOptions_def onesRng_def readFull_def textInstance_def
      setPrefix_def newCircularBuffer_def upt_rec numeral_2_eq_2)

lemma split_loop_fill:
  assumes "0 < s" "s \<le> i"
  shows "split_loop s i dst =
         Inr (map (\<lambda>j. if j < i then dst ! j else dst ! (j mod s)) [0 ..< length dst])"
  using assms(2)
proof (induction "length dst - i" arbitrary: i dst)
  case 0
  then have ge: "length dst \<le> i" by simp
  have "map (\<lambda>j. if j < i then dst ! j else dst ! (j mod s)) [0 ..< length dst]
        = map ((!) dst) [0 ..< length dst]"
    using ge by (intro map_cong) auto
  then show ?case using ge by (subst split_loop.simps) (simp add: map_nth)
next
  case (Suc d)
  then have lt: "i < length dst" by simp
  let ?v = "dst ! (i mod s)"
  let ?dst' = "dst[i := ?v]"
  have ms: "i mod s < s" using assms(1) by simp
  then have mi: "i mod s < length dst" using Suc.prems lt by linarith
  have step: "split_loop s i dst = split_loop s (Suc i) ?dst'"
    using lt mi assms(1) by (subst split_loop.simps) simp
  have d: "d = length ?dst' - Suc i" using Suc.hyps(2) by simp
  have le: "s \<le> Suc i" using Suc.prems by simp
  have "split_loop s (Suc i) ?dst' =
        Inr (map (\<lambda>j. if j < Suc i then ?dst' ! j else ?dst' ! (j mod s)) [0 ..< length ?dst'])"
    using Suc.hyps(1) [OF d le] .
  also have "map (\<lambda>j. if j < Suc i then ?dst' ! j else ?dst' ! (j mod s)) [0 ..< length ?dst']
           = map (\<lambda>j. if j < i then dst ! j else dst ! (j mod s)) [0 ..< length dst]"
  proof (rule map_cong)
    show "[0 ..< length ?dst'] = [0 ..< length dst]" by simp
  next
    fix j assume "j \<in> set [0 ..< length dst]"
    then have jl: "j < length dst" by simp
    have far: "j mod s \<noteq> i" using assms(1) Suc.prems
      by (metis mod_less_divisor not_le)
    show "(if j < Suc i then ?dst' ! j else ?dst' ! (j mod s))
        = (if j < i then dst ! j else dst ! (j mod s))"
    proof (cases "j < i")
      case True
      then show ?thesis by simp
    next
      case False
      show ?thesis
      proof (cases "j = i")
        case True
        then show ?thesis using lt by simp
      next
        case ne: False
        then have "\<not> j < Suc i" using False by simp
        then show ?thesis using False far by simp
      qed
    qed
  qed
  finally show ?case using step by simp
qed

lemma split_loop_quarter:
  assumes "4 \<le> length dst"
  shows "split_loop (length dst div 4) (length dst div 4) dst =
         Inr (map (\<lambda>j. dst ! (j mod (length dst div 4))) [0 ..< length dst])"
proof -
  have pos: "0 < length dst div 4" using assms by simp
  have "map (\<lambda>j. if j < length dst div 4 then dst ! j else dst ! (j mod (length dst div 4)))
          [0 ..< length dst]
        = map (\<lambda>j. dst ! (j mod (length dst div 4))) [0 ..< length dst]"
    by (rule map_cong) auto
  then show ?thesis using split_loop_fill [OF pos order_refl, of dst] by simp
qed

lemma split_loop_nil: "split_loop 0 0 [] = Inr []"
  by (subst split_loop.simps) simp

lemma split_loop_zero: "dst \<noteq> [] \<Longrightarrow> split_loop 0 0 dst = Inl IntegerDivideByZero"
  by (subst split_loop.simps) simp

lemma length_cRead: "length (fst (cRead cr n)) = n"
  by (simp add: cRead_def fresh_def)

lemma plainObject_run:
  assumes gs: "getSize (ps_o c) (ps_rng c) = (sz, rng1)"
    and rd: "cRead cr (nat sz) = (build, err, cr')"
    and rab: "randASCIIBytes rng1 = (nBuf, rng2)"
    and ok: "sz = 0 \<or> 4 \<le> sz"
  shows "plainObject getSize randASCIIBytes c cr =
    Inr (c\<lparr>ps_rng := rng2,
           ps_obj := setName ((ps_obj c)\<lparr>ob_Size := sz,
               ob_Reader := Some ((ps_buf c)\<lparr>cb_data := map (\<lambda>j. build ! (j mod (nat sz div 4))) [0 ..< nat sz],
                                             cb_want := 0\<rparr>)\<rparr>) (nBuf @ ''.txt''),
           ps_buf := (ps_buf c)\<lparr>cb_data := map (\<lambda>j. build ! (j mod (nat sz div 4))) [0 ..< nat sz],
                                cb_want := 0\<rparr>\<rparr>, cr')"
proof -
  have len: "length build = nat sz" using length_cRead [of cr "nat sz"] rd by simp
  have sl: "split_loop (length build div 4) (length build div 4) build
            = Inr (map (\<lambda>j. build ! (j mod (nat sz div 4))) [0 ..< nat sz])"
  proof (cases "sz = 0")
    case True
    then show ?thesis using len split_loop_nil by simp
  next
    case False
    then have "4 \<le> length build" using ok len by simp
    from split_loop_quarter [OF this] show ?thesis using len by simp
  qed
  have nn: "\<not> sz < 0" using ok by auto
  show ?thesis
    using nn by (simp add: plainObject_def gs rd sl Reset_def rab)
qed

lemma plainObject_panics:
  assumes gs: "getSize (ps_o c) (ps_rng c) = (sz, rng1)"
  shows "sz < 0 \<Longrightarrow> plainObject getSize randASCIIBytes c cr = Inl MakesliceLenOutOfRange"
    and "1 \<le> sz \<Longrightarrow> sz \<le> 3 \<Longrightarrow> plainObject getSize randASCIIBytes c cr = Inl IntegerDivideByZero"
proof -
  show "sz < 0 \<Longrightarrow> plainObject getSize randASCIIBytes c cr = Inl MakesliceLenOutOfRange"
    by (simp add: plainObject_def gs)
next
  assume a: "1 \<le> sz" "sz \<le> 3"
  obtain build err cr' where rd: "cRead cr (nat sz) = (build, err, cr')"
    by (cases "cRead cr (nat sz)") auto
  have len: "length build = nat sz" using length_cRead [of cr "nat sz"] rd by simp
  then have z: "length build div 4 = 0" and ne: "build \<noteq> []" using a by auto
  show "plainObject getSize randASCIIBytes c cr = Inl IntegerDivideByZero"
    using a by (simp add: plainObject_def gs rd z split_loop_zero [OF ne])
qed

lemma fresh_counting8: "fresh countingSource 8 = [0, 1, 2, 3, 4, 5, 6, 7]"
  by (simp add: fresh_def countingSource_def upt_rec)

lemma cRead_counting:
  "0 < n \<Longrightarrow> cRead countingSource n = (fresh countingSource n, False, countingSource\<lparr>cr_pos := n, cr_calls := 1\<rparr>)"
  by (simp add: cRead_def countingSource_def)

lemma repeated8:
  "map (\<lambda>j. [0, 1, 2, 3, 4, 5, 6, 7 :: byte] ! (j mod 2)) [0 ..< 8]
   = [0, 1, 0, 1, 0, 1, 0, 1]"
  by (simp add: upt_rec)

section \<open>Claims about the Random Source\<close>

text \<open>
  C3 (amended). For a drawn size that is 0 or at least 4 and a secure read that succeeds,
  \<^verbatim>\<open>plainSrc.Object\<close> returns, \<^verbatim>\<open>Object.Size\<close> is the drawn size, and the payload has that
  many bytes, byte \<open>j\<close> being byte \<open>j mod (Size div 4)\<close> of the bytes read from the secure
  source: the first quarter is fresh and the rest repeats it.
\<close>

theorem plainObject_payload:
  assumes "getSize (ps_o c) (ps_rng c) = (sz, rng1)"
    and "sz = 0 \<or> 4 \<le> sz"
    and "\<not> cr_fails cr (cr_calls cr)"
  shows "\<exists>c' cr'. plainObject getSize randASCIIBytes c cr = Inr (c', cr') \<and>
           ob_Size (ps_obj c') = sz \<and>
           cb_data (ps_buf c') =
             map (\<lambda>j. fresh cr (nat sz) ! (j mod (nat sz div 4))) [0 ..< nat sz]"
proof -
  obtain build err cr' where rd: "cRead cr (nat sz) = (build, err, cr')"
    by (cases "cRead cr (nat sz)") auto
  obtain nBuf rng2 where rab: "randASCIIBytes rng1 = (nBuf, rng2)"
    by (cases "randASCIIBytes rng1") auto
  have b: "build = fresh cr (nat sz)"
    using rd assms(3) by (auto simp: cRead_def fresh_def split: if_splits)
  show ?thesis
    using plainObject_run [where getSize = getSize and c = c and randASCIIBytes = randASCIIBytes,
        OF assms(1) rd rab assms(2)]
    by (simp add: setName_def b)
qed

theorem plainObject_payload_witness:
  "\<exists>c' cr'. plainObject fixedSize sameSuffix (plainInstance 8) countingSource = Inr (c', cr') \<and>
      ob_Size (ps_obj c') = 8 \<and> cb_data (ps_buf c') = [0, 1, 0, 1, 0, 1, 0, 1]"
proof -
  have gs: "fixedSize (ps_o (plainInstance 8)) (ps_rng (plainInstance 8)) = (8, onesRng\<lparr>mr_pos := 2\<rparr>)"
    by (simp add: fixedSize_def plainInstance_def exampleOptions_def)
  have ok: "(8::int) = 0 \<or> 4 \<le> (8::int)" by simp
  have nf: "\<not> cr_fails countingSource (cr_calls countingSource)"
    by (simp add: countingSource_def)
  from plainObject_payload [where getSize = fixedSize and c = "plainInstance 8"
      and randASCIIBytes = sameSuffix, OF gs ok nf]
  show ?thesis by (simp add: fresh_counting8 repeated8)
qed

text \<open>
  C3 as stated fails: for size 8 the secure source delivers 0, 1, ..., 7 and the payload is
  0, 1, 0, 1, 0, 1, 0, 1.
\<close>

theorem plainObject_payload_counterexample:
  "map_sum id (cb_data \<circ> ps_buf \<circ> fst)
     (plainObject fixedSize sameSuffix (plainInstance 8) countingSource)
     = Inr [0, 1, 0, 1, 0, 1, 0, 1]
   \<and> fst (cRead countingSource 8) = [0, 1, 2, 3, 4, 5, 6, 7]"
proof -
  have gs: "fixedSize (ps_o (plainInstance 8)) (ps_rng (plainInstance 8)) = (8, onesRng\<lparr>mr_pos := 2\<rparr>)"
    by (simp add: fixedSize_def plainInstance_def exampleOptions_def)
  have rd: "cRead countingSource (nat 8) = ([0, 1, 2, 3, 4, 5, 6, 7], False, countingSource\<lparr>cr_pos := 8, cr_calls := 1\<rparr>)"
    using cRead_counting [of 8] by (simp add: fresh_counting8)
  have rab: "sameSuffix (onesRng\<lparr>mr_pos := 2\<rparr>) = (''aaaaaaaaaaaaaaaa'', onesRng\<lparr>mr_pos := 2\<rparr>)"
    by (simp add: sameSuffix_def)
  show ?thesis
    using plainObject_run [where getSize = fixedSize and c = "plainInstance 8"
        and randASCIIBytes = sameSuffix, OF gs rd rab] rd
    by (simp add: repeated8)
qed

text \<open>
  C9. For a drawn size from 1 to 3 the split length is 0, the repetition loop takes a
  remainder by zero and \<^verbatim>\<open>plainSrc.Object\<close> panics; the call returns exactly when the drawn
  size is 0 or at least 4.
\<close>

theorem plainObject_divide_by_zero:
  assumes "getSize (ps_o c) (ps_rng c) = (sz, rng1)"
  shows "(1 \<le> sz \<and> sz \<le> 3 \<longrightarrow>
            split_loop (nat sz div 4) (nat sz div 4) (fst (cRead cr (nat sz))) = Inl IntegerDivideByZero \<and>
            plainObject getSize randASCIIBytes c cr = Inl IntegerDivideByZero)
       \<and> ((\<exists>c' cr'. plainObject getSize randASCIIBytes c cr = Inr (c', cr')) = (sz = 0 \<or> 4 \<le> sz))"
proof (intro conjI impI)
  assume a: "1 \<le> sz \<and> sz \<le> 3"
  have "length (fst (cRead cr (nat sz))) = nat sz" by (rule length_cRead)
  then have "fst (cRead cr (nat sz)) \<noteq> []" using a by auto
  moreover have "nat sz div 4 = 0" using a by auto
  ultimately
  show "split_loop (nat sz div 4) (nat sz div 4) (fst (cRead cr (nat sz))) = Inl IntegerDivideByZero"
    using split_loop_zero by simp
  show "plainObject getSize randASCIIBytes c cr = Inl IntegerDivideByZero"
    using plainObject_panics(2) [where getSize = getSize and c = c, OF assms] a by simp
next
  obtain build err cr' where rd: "cRead cr (nat sz) = (build, err, cr')"
    by (cases "cRead cr (nat sz)") auto
  obtain nBuf rng2 where rab: "randASCIIBytes rng1 = (nBuf, rng2)"
    by (cases "randASCIIBytes rng1") auto
  consider (neg) "sz < 0" | (small) "1 \<le> sz" "sz \<le> 3" | (ok) "sz = 0 \<or> 4 \<le> sz" by linarith
  then show "(\<exists>c' cr'. plainObject getSize randASCIIBytes c cr = Inr (c', cr')) = (sz = 0 \<or> 4 \<le> sz)"
  proof cases
    case neg
    then show ?thesis
      using plainObject_panics(1) [where getSize = getSize and c = c, OF assms neg, of randASCIIBytes cr]
      by simp
  next
    case small
    then show ?thesis
      using plainObject_panics(2) [where getSize = getSize and c = c, OF assms small, of randASCIIBytes cr]
      by simp
  next
    case ok
    then show ?thesis
      using plainObject_run [where getSize = getSize and c = c and randASCIIBytes = randASCIIBytes,
          OF assms rd rab ok]
      by simp
  qed
qed

theorem plainObject_divide_by_zero_witness:
  "plainObject fixedSize sameSuffix (plainInstance 3) countingSource = Inl IntegerDivideByZero
   \<and> (\<exists>c' cr'. plainObject fixedSize sameSuffix (plainInstance 4) countingSource = Inr (c', cr'))"
  using plainObject_divide_by_zero [of fixedSize "plainInstance 3" 3 "onesRng\<lparr>mr_pos := 2\<rparr>" countingSource sameSuffix]
    plainObject_divide_by_zero [of fixedSize "plainInstance 4" 4 "onesRng\<lparr>mr_pos := 2\<rparr>" countingSource sameSuffix]
  by (simp add: fixedSize_def plainInstance_def exampleOptions_def)

section \<open>Properties of the Text Source\<close>

lemma textObject_run:
  assumes gs: "getSize (ts_o t) (ts_rng t) = (sz, rng1)"
    and bl: "build_loop sz (opt_compRatio (ts_o t)) (opt_compWindow (ts_o t)) [] cr
             = Some (Inr (builder, cr'))"
    and rab: "randASCIIBytes rng1 = (nBuf, rng2)"
    and nn: "0 \<le> sz"
  shows "textObject getSize randASCIIBytes t cr =
    Some (Inr (t\<lparr>ts_counter := ts_counter t + 1,
                 ts_rng := rng2,
                 ts_buf := (ts_buf t)\<lparr>cb_data := builder, cb_want := sz\<rparr>,
                 ts_obj := setName ((ts_obj t)\<lparr>ob_Size := sz,
                     ob_Reader := Some ((ts_buf t)\<lparr>cb_data := builder, cb_want := sz\<rparr>)\<rparr>)
                   (decimal (unat (ts_counter t + 1)) @ ''.'' @ nBuf @ ''.txt'')\<rparr>, cr'))"
  using nn by (simp add: textObject_def gs bl rab Reset_def Let_def)

lemma build_loop_exit:
  "\<not> int (length b) < s \<Longrightarrow> build_loop s r w b cr = Some (Inr (b, cr))"
  by (subst build_loop.simps) simp

lemma build_loop_step:
  "int (length b) < s \<Longrightarrow> genData (s - int (length b)) r w cr = Some (Inr (bs, cr'))
   \<Longrightarrow> build_loop s r w b cr = build_loop s r w (b @ bs) cr'"
  by (subst build_loop.simps) simp

lemma build_loop_example:
  "build_loop 2 0 1 [] countingSource = Some (Inr ([0, 1], countingSource\<lparr>cr_pos := 2, cr_calls := 1\<rparr>))"
proof -
  have plan: "genPlan 2 0 1 = (int 2, int 0, int 2 * int 1)"
    by (simp add: genPlan_def)
  have "genData 2 0 1 countingSource =
    (if cr_fails countingSource (cr_calls countingSource)
     then Some (Inr ([], countingSource\<lparr>cr_calls := Suc (cr_calls countingSource)\<rparr>))
     else Some (Inr (concat (replicate 1 (fresh countingSource 2))
                     @ take 0 (concat (replicate 1 (fresh countingSource 2))),
                     countingSource\<lparr>cr_pos := cr_pos countingSource + 2,
                                     cr_calls := Suc (cr_calls countingSource)\<rparr>)))"
    by (rule genData_run [OF plan]) simp_all
  then have g: "genData 2 0 1 countingSource =
      Some (Inr ([0, 1], countingSource\<lparr>cr_pos := 2, cr_calls := 1\<rparr>))"
    by (simp add: fresh_counting) (simp add: countingSource_def)
  have "build_loop 2 0 1 [] countingSource
      = build_loop 2 0 1 ([] @ [0, 1]) (countingSource\<lparr>cr_pos := 2, cr_calls := 1\<rparr>)"
    by (rule build_loop_step) (simp_all add: g)
  also have "\<dots> = Some (Inr ([0, 1], countingSource\<lparr>cr_pos := 2, cr_calls := 1\<rparr>))"
    using build_loop_exit [of "[0, 1]" 2 0 1] by simp
  finally show ?thesis .
qed

section \<open>Claims about the buffer, the stream, the names and the constructors\<close>

text \<open>
  C4 (amended). After a call of \<^verbatim>\<open>Object()\<close> that returns, the data of the circular
  buffer is the payload synthesized by that call: for the Random Source the secure bytes
  after the repetition loop, for the Text Source the bytes accumulated from \<^verbatim>\<open>genData\<close>.
  The bytes written at construction are not kept.
\<close>

theorem object_replaces_buffer:
  assumes "getSize (ps_o c) (ps_rng c) = (sz, rng1)"
    and "getSize (ts_o t) (ts_rng t) = (tsz, trng1)"
  shows "(plainObject getSize randASCIIBytes c cr = Inr (c', cr') \<longrightarrow>
            split_loop (nat sz div 4) (nat sz div 4) (fst (cRead cr (nat sz)))
              = Inr (cb_data (ps_buf c')))
       \<and> (textObject getSize randASCIIBytes t cr = Some (Inr (t', cr'')) \<longrightarrow>
            build_loop tsz (opt_compRatio (ts_o t)) (opt_compWindow (ts_o t)) [] cr
              = Some (Inr (cb_data (ts_buf t'), cr'')))"
proof (intro conjI impI)
  assume run: "plainObject getSize randASCIIBytes c cr = Inr (c', cr')"
  have len: "length (fst (cRead cr (nat sz))) = nat sz" by (rule length_cRead)
  from run show "split_loop (nat sz div 4) (nat sz div 4) (fst (cRead cr (nat sz)))
              = Inr (cb_data (ps_buf c'))"
    using len
    by (auto simp: plainObject_def assms(1) Reset_def Let_def
        split: prod.splits if_splits sum.splits)
next
  assume run: "textObject getSize randASCIIBytes t cr = Some (Inr (t', cr''))"
  then show "build_loop tsz (opt_compRatio (ts_o t)) (opt_compWindow (ts_o t)) [] cr
              = Some (Inr (cb_data (ts_buf t'), cr''))"
    by (auto simp: textObject_def assms(2) Reset_def Let_def
        split: prod.splits if_splits sum.splits option.splits)
qed

lemma textObject_example:
  "textObject fixedSize sameSuffix (textInstance 2 0 1) countingSource =
   Some (Inr ((textInstance 2 0 1)\<lparr>ts_counter := 1,
                 ts_rng := onesRng\<lparr>mr_pos := 2\<rparr>,
                 ts_buf := \<lparr>cb_data = [0, 1], cb_want = 2\<rparr>,
                 ts_obj := \<lparr>ob_Reader = Some \<lparr>cb_data = [0, 1], cb_want = 2\<rparr>,
                            ob_Name = ''1.aaaaaaaaaaaaaaaa.txt'',
                            ob_ContentType = ''text/plain'', ob_Size = 2,
                            ob_Prefix = ''bench''\<rparr>\<rparr>,
              countingSource\<lparr>cr_pos := 2, cr_calls := 1\<rparr>))"
proof -
  have gs: "fixedSize (ts_o (textInstance 2 0 1)) (ts_rng (textInstance 2 0 1)) = (2, onesRng\<lparr>mr_pos := 2\<rparr>)"
    by (simp add: fixedSize_def textInstance_def exampleOptions_def)
  have bl: "build_loop 2 (opt_compRatio (ts_o (textInstance 2 0 1)))
      (opt_compWindow (ts_o (textInstance 2 0 1))) [] countingSource
      = Some (Inr ([0, 1], countingSource\<lparr>cr_pos := 2, cr_calls := 1\<rparr>))"
    using build_loop_example by (simp add: textInstance_def exampleOptions_def)
  have rab: "sameSuffix (onesRng\<lparr>mr_pos := 2\<rparr>) = (''aaaaaaaaaaaaaaaa'', onesRng\<lparr>mr_pos := 2\<rparr>)"
    by (simp add: sameSuffix_def)
  have dec: "decimal (Suc 0) = ''1''"
    by (simp add: decimal.simps digit_def)
  show ?thesis
    using textObject_run [where getSize = fixedSize and t = "textInstance 2 0 1"
        and randASCIIBytes = sameSuffix, OF gs bl rab]
    by (simp add: dec setName_def textInstance_def)
qed

text \<open>
  C4 as stated fails: \<^verbatim>\<open>newText\<close> fills the buffer with 255, 255, and after one call of
  \<^verbatim>\<open>Object()\<close> the buffer holds 0, 1.
\<close>

theorem object_replaces_buffer_counterexample:
  "newText (exampleOptions 2 0 1) onesRng = Inr (textInstance 2 0 1)
   \<and> cb_data (ts_buf (textInstance 2 0 1)) = [255, 255]
   \<and> map_option (map_sum id (cb_data \<circ> ts_buf \<circ> fst))
        (textObject fixedSize sameSuffix (textInstance 2 0 1) countingSource) = Some (Inr [0, 1])"
  using newText_example [of 2 0 1] by (simp add: textObject_example) (simp add: textInstance_def)

theorem object_replaces_buffer_witness:
  "split_loop 2 2 [0, 1, 2, 3, 4, 5, 6, 7] = Inr [0, 1, 0, 1, 0, 1, 0, 1]
   \<and> build_loop 2 0 1 [] countingSource
       = Some (Inr ([0, 1], countingSource\<lparr>cr_pos := 2, cr_calls := 1\<rparr>))"
proof -
  have gs: "fixedSize (ps_o (plainInstance 8)) (ps_rng (plainInstance 8)) = (8, onesRng\<lparr>mr_pos := 2\<rparr>)"
    by (simp add: fixedSize_def plainInstance_def exampleOptions_def)
  have gt: "fixedSize (ts_o (textInstance 2 0 1)) (ts_rng (textInstance 2 0 1)) = (2, onesRng\<lparr>mr_pos := 2\<rparr>)"
    by (simp add: fixedSize_def textInstance_def exampleOptions_def)
  have rd: "cRead countingSource (nat 8) = ([0, 1, 2, 3, 4, 5, 6, 7], False, countingSource\<lparr>cr_pos := 8, cr_calls := 1\<rparr>)"
    using cRead_counting [of 8] by (simp add: fresh_counting8)
  have rab: "sameSuffix (onesRng\<lparr>mr_pos := 2\<rparr>) = (''aaaaaaaaaaaaaaaa'', onesRng\<lparr>mr_pos := 2\<rparr>)"
    by (simp add: sameSuffix_def)
  note p = plainObject_run [where getSize = fixedSize and c = "plainInstance 8"
        and randASCIIBytes = sameSuffix, OF gs rd rab]
  note th = object_replaces_buffer [where getSize = fixedSize and c = "plainInstance 8"
        and t = "textInstance 2 0 1" and randASCIIBytes = sameSuffix and cr = countingSource,
        OF gs gt]
  have a: "split_loop 2 2 [0, 1, 2, 3, 4, 5, 6, 7] = Inr [0, 1, 0, 1, 0, 1, 0, 1]"
    using th [THEN conjunct1, rule_format, OF p] rd by (simp add: repeated8)
  have b: "build_loop 2 0 1 [] countingSource
       = Some (Inr ([0, 1], countingSource\<lparr>cr_pos := 2, cr_calls := 1\<rparr>))"
    using th [THEN conjunct2, rule_format, OF textObject_example]
    by (simp add: textInstance_def exampleOptions_def)
  show ?thesis using a b by simp
qed

lemma fixed_plain_run:
  assumes "opt_totalSize (ps_o c) = 4"
  shows "\<exists>c' cr'. plainObject fixedSize sameSuffix c cr = Inr (c', cr') \<and>
           ps_o c' = ps_o c \<and> ob_Name (ps_obj c') = ''aaaaaaaaaaaaaaaa.txt'' \<and>
           sizeAndStream (ps_obj c') = (4, 0)"
proof -
  have gs: "fixedSize (ps_o c) (ps_rng c) = (4, ps_rng c)"
    using assms by (simp add: fixedSize_def)
  obtain build err cr' where rd: "cRead cr (nat 4) = (build, err, cr')"
    by (cases "cRead cr (nat 4)") auto
  have rab: "sameSuffix (ps_rng c) = (''aaaaaaaaaaaaaaaa'', ps_rng c)"
    by (simp add: sameSuffix_def)
  show ?thesis
    using plainObject_run [where getSize = fixedSize and c = c and randASCIIBytes = sameSuffix,
        OF gs rd rab]
    by (simp add: setName_def sizeAndStream_def streamLength_def drain_def)
qed

section \<open>The size of the stream\<close>

text \<open>
  The Text Source keeps the size: \<^verbatim>\<open>genData\<close> never returns more than it was asked
  for, so the accumulation loop ends with exactly the target length, and the stream is reset
  to that length.
\<close>

lemma genData_negative_window:
  assumes "0 < compRatio" "compWindow < reqSize" "compWindow < 0"
  shows "genData reqSize compRatio compWindow cr = Some (Inl MakesliceLenOutOfRange)
       \<or> genData reqSize compRatio compWindow cr = Some (Inr ([], cr))"
proof -
  let ?u = "compWindow sdiv compRatio" and ?r = "compWindow smod compRatio"
  have plan: "genPlan reqSize compRatio compWindow = (?u, ?r, ?u * compRatio)"
    using assms by (simp add: genPlan_def)
  have r: "?r \<le> 0" using assms by (simp add: smod_int_compares)
  have rep: "repeat_loop [] [] 0 = Some []"
    using repeat_loop_done [of "[]" "[]"] by simp
  show ?thesis
  proof (cases "?u < 0")
    case True
    then show ?thesis by (simp add: genData_def plan)
  next
    case False
    have "0 \<le> (- compWindow) div compRatio"
      using assms by (intro pos_imp_zdiv_nonneg_iff [THEN iffD2]) simp_all
    then have "?u \<le> 0" using assms by (simp add: signed_divide_int_def sgn_if)
    then have "?u = 0" using False by simp
    then show ?thesis using r by (simp add: genData_def plan cRead_def rep rem_loop_nonpos)
  qed
qed

lemma genData_le:
  assumes run: "genData reqSize compRatio compWindow cr = Some (Inr (bs, cr'))"
    and req: "1 \<le> reqSize"
  shows "int (length bs) \<le> reqSize"
proof -
  consider (raw) "compRatio \<le> 0"
    | (floor) "0 < compRatio" "reqSize \<le> compWindow" "reqSize < compRatio"
    | (fit) "0 < compRatio" "reqSize \<le> compWindow" "compRatio \<le> reqSize"
    | (window) "0 < compRatio" "compWindow < reqSize" "compRatio \<le> compWindow"
    | (panic) "0 < compRatio" "compWindow < reqSize" "0 < compWindow" "compWindow < compRatio"
    | (zero) "0 < compRatio" "compWindow < reqSize" "compWindow = 0"
    | (neg) "0 < compRatio" "compWindow < reqSize" "compWindow < 0"
    by linarith
  then show ?thesis
  proof cases
    case raw
    from genData_raw [OF raw req, of compWindow cr] run show ?thesis
      using req by (auto split: if_splits)
  next
    case floor
    have "0 \<le> reqSize" using req by simp
    from genData_floor [OF this floor(3) floor(2), of cr] run show ?thesis
      using req by (auto split: if_splits)
  next
    case fit
    from genData_divided [OF genPlan_fit [OF fit(1) fit(3) fit(2)] fit(1) fit(3), of cr] run
    show ?thesis using req by (auto split: if_splits)
  next
    case window
    have "0 \<le> compWindow" using window by simp
    from genData_divided [OF genPlan_window [OF window(1) window(2) this] window(1) window(3), of cr]
      run
    show ?thesis using window req by (auto split: if_splits)
  next
    case panic
    from genData_window_panic(2) [OF panic(3) panic(4) panic(2), of cr] run show ?thesis by simp
  next
    case zero
    from genData_zero_window [of compRatio reqSize cr] zero req run show ?thesis by simp
  next
    case neg
    from genData_negative_window [OF neg, of cr] run req show ?thesis by auto
  qed
qed

lemma build_loop_length:
  assumes run: "build_loop s r w b cr = Some (Inr (b', cr'))" and le: "int (length b) \<le> s"
  shows "int (length b') = s"
proof -
  let ?P = "\<lambda>s (r :: int) (w :: int) (b :: byte list) (cr :: crand) (y :: panic + byte list \<times> crand).
      \<forall>b' cr'. y = Inr (b', cr') \<longrightarrow> int (length b) \<le> s \<longrightarrow> int (length b') = s"
  have "?P s r w b cr (Inr (b', cr'))"
  proof (rule build_loop.raw_induct [where P = ?P, OF _ run])
    fix loop s r w b cr y
    assume IH: "\<And>s r w b cr y. loop s r w b cr = Some y \<Longrightarrow> ?P s r w b cr y"
      and eq: "(if int (length b) < s
           then case genData (s - int (length b)) r w cr of
                  None \<Rightarrow> None
                | Some (Inl p) \<Rightarrow> Some (Inl p)
                | Some (Inr (bs, cr')) \<Rightarrow> loop s r w (b @ bs) cr'
           else Some (Inr (b, cr))) = Some y"
    show "?P s r w b cr y"
    proof (intro allI impI)
      fix b' cr' assume y: "y = Inr (b', cr')" and le: "int (length b) \<le> s"
      show "int (length b') = s"
      proof (cases "int (length b) < s")
        case False
        then show ?thesis using eq y le by simp
      next
        case True
        then obtain bs cr1 where g: "genData (s - int (length b)) r w cr = Some (Inr (bs, cr1))"
          and l: "loop s r w (b @ bs) cr1 = Some y"
          using eq y by (auto split: option.splits sum.splits)
        have "int (length bs) \<le> s - int (length b)"
          using genData_le [OF g] True by simp
        then have "int (length (b @ bs)) \<le> s" by simp
        with IH [OF l] y show ?thesis by blast
      qed
    qed
  qed
  then show ?thesis using le by simp
qed

lemma textObject_size_fidelity:
  assumes "textObject getSize randASCIIBytes t cr = Some (Inr (t', cr'))"
  shows "int (streamLength (ts_obj t')) = ob_Size (ts_obj t')"
proof -
  obtain sz rng1 where gs: "getSize (ts_o t) (ts_rng t) = (sz, rng1)"
    by (cases "getSize (ts_o t) (ts_rng t)") auto
  from assms obtain builder where
    bl: "build_loop sz (opt_compRatio (ts_o t)) (opt_compWindow (ts_o t)) [] cr = Some (Inr (builder, cr'))"
    and nn: "0 \<le> sz"
    and obj: "ob_Size (ts_obj t') = sz"
      "ob_Reader (ts_obj t') = Some ((ts_buf t)\<lparr>cb_data := builder, cb_want := sz\<rparr>)"
    by (auto simp: textObject_def gs Reset_def Let_def setName_def
        split: prod.splits if_splits sum.splits option.splits)
  have "int (length builder) = sz" using build_loop_length [OF bl] nn by simp
  then show ?thesis using nn obj by (auto simp: streamLength_def drain_def)
qed

text \<open>
  C1 fails on the code: \<^verbatim>\<open>plainSrc.Object\<close> sets \<^verbatim>\<open>Size\<close> to the drawn size 4 and resets
  the stream to length 0, so no byte can be read from it.
\<close>

theorem plainObject_stream_shorter_than_size:
  "map_sum id (sizeAndStream \<circ> ps_obj \<circ> fst)
     (plainObject fixedSize sameSuffix (plainInstance 4) countingSource) = Inr (4, 0)"
proof -
  have "opt_totalSize (ps_o (plainInstance 4)) = 4"
    by (simp add: plainInstance_def exampleOptions_def)
  from fixed_plain_run [OF this, of countingSource] show ?thesis by auto
qed

text \<open>
  C5 fails on the code: a name of \<^verbatim>\<open>plainSrc.Object\<close> is the random suffix followed by
  \<^verbatim>\<open>.txt\<close>, with no counter, and two calls whose suffix draws agree assign the same name.
\<close>

theorem plainObject_names_collide:
  "plainObject_twice fixedSize sameSuffix (plainInstance 4) countingSource
     = Inr (''aaaaaaaaaaaaaaaa.txt'', ''aaaaaaaaaaaaaaaa.txt'')"
proof -
  have t: "opt_totalSize (ps_o (plainInstance 4)) = 4"
    by (simp add: plainInstance_def exampleOptions_def)
  from fixed_plain_run [OF t, of countingSource] obtain c1 cr1 where
    r1: "plainObject fixedSize sameSuffix (plainInstance 4) countingSource = Inr (c1, cr1)"
    and o1: "ps_o c1 = ps_o (plainInstance 4)"
    and n1: "ob_Name (ps_obj c1) = ''aaaaaaaaaaaaaaaa.txt''" by blast
  have "opt_totalSize (ps_o c1) = 4" using o1 t by simp
  from fixed_plain_run [OF this, of cr1] obtain c2 cr2 where
    r2: "plainObject fixedSize sameSuffix c1 cr1 = Inr (c2, cr2)"
    and n2: "ob_Name (ps_obj c2) = ''aaaaaaaaaaaaaaaa.txt''" by blast
  show ?thesis by (simp add: plainObject_twice_def r1 r2 n1 n2)
qed

text \<open>
  C7. \<^verbatim>\<open>newRandom\<close> and \<^verbatim>\<open>newText\<close> return an error and no source exactly when the
  block size capped to the total size is at most 0, and a source and no error otherwise.
\<close>

theorem constructors_fail_iff:
  "((\<exists>e. newRandom opts rng = Inl e) = (min (opt_randomSize opts) (opt_totalSize opts) \<le> 0))
   \<and> ((\<exists>c. newRandom opts rng = Inr c) = (0 < min (opt_randomSize opts) (opt_totalSize opts)))
   \<and> ((\<exists>e. newText opts rng = Inl e) = (min (opt_textSize opts) (opt_totalSize opts) \<le> 0))
   \<and> ((\<exists>t. newText opts rng = Inr t) = (0 < min (opt_textSize opts) (opt_totalSize opts)))"
  by (auto simp: newRandom_def newText_def readFull_def Let_def min_def)

theorem constructors_fail_iff_witness:
  "(\<exists>e. newRandom (exampleOptions 0 0 0) onesRng = Inl e)
   \<and> (\<exists>c. newRandom (exampleOptions 8 0 0) onesRng = Inr c)
   \<and> (\<exists>e. newText (exampleOptions (- 1) 0 0) onesRng = Inl e)
   \<and> (\<exists>t. newText (exampleOptions 8 0 0) onesRng = Inr t)"
  using constructors_fail_iff [of "exampleOptions 0 0 0" onesRng]
    constructors_fail_iff [of "exampleOptions 8 0 0" onesRng]
    constructors_fail_iff [of "exampleOptions (- 1) 0 0" onesRng]
  by (simp add: exampleOptions_def)

end
